theory Spec2Isabelle
  imports Complex_Main
begin

section \<open>Common conventions\<close>

text \<open>
  The program is a single C++ file (\<^verbatim>\<open>main.cpp\<close>): a sequencer, a sawtooth oscillator and
  a four-stage low-pass filter produce blocks of signed 16-bit samples, and a circular
  buffer hands the blocks from the generator thread to the audio callback.

  Conventions of the embedding:
  \<^item> \<^verbatim>\<open>size_t\<close> and \<^verbatim>\<open>unsigned\<close> values are \<open>nat\<close>. Every \<^verbatim>\<open>size_t\<close> subtraction of
    the circular buffer has the form \<open>a - b\<close> with \<open>b \<le> a\<close> as long as both cursors are
    below the size of the vector (lemma \<open>cursors_in_range\<close> shows they always are), and every
    sum is below twice the size of the vector, so no 64-bit wrap-around can occur there. The
    32-bit \<^verbatim>\<open>unsigned\<close> arithmetic of the sequencer has its wrap-around written out.
  \<^item> an \<^verbatim>\<open>int16_t\<close> sample is an \<open>int\<close>; the conversion from a floating-point value
    to \<^verbatim>\<open>int16_t\<close> truncates towards zero and is undefined in C++ when the truncated value
    does not fit: the model returns \<open>Overflow\<close> there.
  \<^item> \<^verbatim>\<open>float\<close> and \<^verbatim>\<open>double\<close> values are \<open>real\<close>. In the oscillator the rounding of
    every operation is modelled, by two rounding functions that are parameters of its
    definitions; in the filter the arithmetic is exact.
  \<^item> undefined behaviour (a read or store outside an array, a division by zero, an
    out-of-range conversion) is an \<open>error\<close> value, \<open>Inl\<close> of a sum.
\<close>

datatype error = OutOfBounds | DivByZero | Overflow

text \<open>\<^verbatim>\<open>std::copy(src + off, src + off + n, d)\<close> reads \<open>n\<close> elements of \<open>src\<close> from \<open>off\<close>.\<close>

definition read_span :: "'a list \<Rightarrow> nat \<Rightarrow> nat \<Rightarrow> error + 'a list" where
  "read_span xs off n =
     (if off + n \<le> length xs then Inr (take n (drop off xs)) else Inl OutOfBounds)"

text \<open>... and stores them into the destination array from \<open>off\<close>.\<close>

definition write_span :: "'a list \<Rightarrow> nat \<Rightarrow> 'a list \<Rightarrow> error + 'a list" where
  "write_span xs off ys =
     (if off + length ys \<le> length xs
      then Inr (take off xs @ ys @ drop (off + length ys) xs)
      else Inl OutOfBounds)"

definition std_copy :: "'a list \<Rightarrow> nat \<Rightarrow> nat \<Rightarrow> 'a list \<Rightarrow> nat \<Rightarrow> error + 'a list" where
  "std_copy src soff n dest doff =
     (case read_span src soff n of
        Inl e \<Rightarrow> Inl e
      | Inr ys \<Rightarrow> write_span dest doff ys)"

section \<open>CircularBuffer\<close>

record CircularBuffer =
  samples :: "int list"
  write_a :: nat
  read_a :: nat
  first :: bool

text \<open>The constructor \<^verbatim>\<open>CircularBuffer(size)\<close>: a zero-filled vector, both cursors 0.\<close>

definition new_buffer :: "nat \<Rightarrow> CircularBuffer" where
  "new_buffer sz = \<lparr>samples = replicate sz 0, write_a = 0, read_a = 0, first = True\<rparr>"

text \<open>
  \<^verbatim>\<open>copy_out(dest, count)\<close> returns the shortfall, the samples stored into \<open>dest\<close> (from its
  offset 0, in order) and the buffer with \<open>read_a\<close> advanced.
\<close>

definition copy_out :: "CircularBuffer \<Rightarrow> nat \<Rightarrow> error + (nat \<times> int list \<times> CircularBuffer)" where
  "copy_out b count =
     (let src = samples b; read = read_a b; write = write_a b;
          r = (if read < write then
                 (let count_out = min count (write - read) in
                  case read_span src read count_out of
                    Inl e \<Rightarrow> Inl e
                  | Inr d \<Rightarrow> Inr (count_out, d))
               else
                 (let size1 = min (length src - read) count;
                      size2 = max 0 (min (count - size1) write) in
                  case read_span src read size1 of
                    Inl e \<Rightarrow> Inl e
                  | Inr d1 \<Rightarrow>
                      (case read_span src 0 size2 of
                         Inl e \<Rightarrow> Inl e
                       | Inr d2 \<Rightarrow> Inr (size1 + size2, d1 @ d2))))
      in case r of
           Inl e \<Rightarrow> Inl e
         | Inr (count_out, dest) \<Rightarrow>
             if length src = 0 then Inl DivByZero
             else Inr (count - count_out, dest,
                       b\<lparr>read_a := (read + count_out) mod length src\<rparr>))"

text \<open>\<^verbatim>\<open>copy_in(src, count)\<close> returns the shortfall and the updated buffer.\<close>

definition copy_in :: "CircularBuffer \<Rightarrow> int list \<Rightarrow> nat \<Rightarrow> error + (nat \<times> CircularBuffer)" where
  "copy_in b src count =
     (let dest = samples b; read = read_a b; write = write_a b;
          r = (if first b then
                 (let count_in = min count (length dest) in
                  case std_copy src 0 count_in dest write of
                    Inl e \<Rightarrow> Inl e
                  | Inr d \<Rightarrow> Inr (count_in, d, False))
               else if read > write then
                 (let count_in = min count (read - write) in
                  case std_copy src 0 count_in dest write of
                    Inl e \<Rightarrow> Inl e
                  | Inr d \<Rightarrow> Inr (count_in, d, first b))
               else if read < write then
                 (let size1 = min (length dest - write) count;
                      size2 = max 0 (min (count - size1) read) in
                  case std_copy src 0 size1 dest write of
                    Inl e \<Rightarrow> Inl e
                  | Inr d1 \<Rightarrow>
                      (case std_copy src size1 size2 d1 0 of
                         Inl e \<Rightarrow> Inl e
                       | Inr d2 \<Rightarrow> Inr (size1 + size2, d2, first b)))
               else Inr (0, dest, first b))
      in case r of
           Inl e \<Rightarrow> Inl e
         | Inr (count_in, dest', first') \<Rightarrow>
             if length dest = 0 then Inl DivByZero
             else Inr (count - count_in,
                       b\<lparr>samples := dest', write_a := (write + count_in) mod length dest,
                         first := first'\<rparr>))"

definition has_space :: "CircularBuffer \<Rightarrow> bool" where
  "has_space b = (write_a b \<noteq> read_a b)"

text \<open>
  A history of calls on one buffer, with two counters that the program does not have:
  the number of samples accepted by \<open>copy_in\<close> so far and the number handed out by
  \<open>copy_out\<close> so far. The cursors are these totals modulo the size of the vector.
\<close>

datatype action = Write "int list" nat | Read nat

record history =
  buffer :: CircularBuffer
  written :: nat
  consumed :: nat

definition start :: "nat \<Rightarrow> history" where
  "start sz = \<lparr>buffer = new_buffer sz, written = 0, consumed = 0\<rparr>"

fun step :: "history \<Rightarrow> action \<Rightarrow> error + history" where
  "step h (Write src count) =
     (case copy_in (buffer h) src count of
        Inl e \<Rightarrow> Inl e
      | Inr (left, b) \<Rightarrow> Inr (h\<lparr>buffer := b, written := written h + (count - left)\<rparr>))"
| "step h (Read count) =
     (case copy_out (buffer h) count of
        Inl e \<Rightarrow> Inl e
      | Inr (left, dest, b) \<Rightarrow> Inr (h\<lparr>buffer := b, consumed := consumed h + (count - left)\<rparr>))"

fun run :: "history \<Rightarrow> action list \<Rightarrow> error + history" where
  "run h [] = Inr h"
| "run h (a # as) = (case step h a of Inl e \<Rightarrow> Inl e | Inr h' \<Rightarrow> run h' as)"

text \<open>
  The invariant of a history on a buffer of size \<open>sz\<close>: the cursors are the two
  totals modulo \<open>sz\<close>, the producer is at most \<open>sz\<close> samples ahead of the consumer,
  and nothing has been written while \<open>first\<close> is set.
\<close>

definition history_inv :: "nat \<Rightarrow> history \<Rightarrow> bool" where
  "history_inv sz h =
     (0 < sz \<and> length (samples (buffer h)) = sz \<and>
      read_a (buffer h) = consumed h mod sz \<and>
      write_a (buffer h) = written h mod sz \<and>
      written h \<le> consumed h + sz \<and>
      (if first (buffer h) then written h = 0 else True))"

text \<open>
  The reference behaviour of a write into a ring: the samples go to consecutive positions
  from the write cursor, one by one, wrapping at the end of the array.
\<close>

fun ring_put :: "'a list \<Rightarrow> nat \<Rightarrow> 'a list \<Rightarrow> 'a list" where
  "ring_put buf w [] = buf"
| "ring_put buf w (x # xs) = ring_put (buf[w := x]) (Suc w mod length buf) xs"

definition ring_write :: "nat \<Rightarrow> CircularBuffer \<Rightarrow> int list \<Rightarrow> nat \<Rightarrow> nat \<times> CircularBuffer" where
  "ring_write space b src count =
     (let n = min count space in
      (count - n,
       b\<lparr>samples := ring_put (samples b) (write_a b) (take n src),
         write_a := (write_a b + n) mod length (samples b)\<rparr>))"

text \<open>
  The free space as the specification words it for a write that is not the first: the gap
  when the reader is ahead of the writer, the wrap-around distance to the reader when the
  writer is ahead of or equal to the reader.
\<close>

definition spec_space :: "CircularBuffer \<Rightarrow> nat" where
  "spec_space b =
     (if read_a b > write_a b then read_a b - write_a b
      else length (samples b) - write_a b + read_a b)"

definition spec_write :: "CircularBuffer \<Rightarrow> int list \<Rightarrow> nat \<Rightarrow> nat \<times> CircularBuffer" where
  "spec_write b src count = ring_write (spec_space b) b src count"

text \<open>The free space as \<open>copy_in\<close> computes it: equal cursors leave no space.\<close>

definition code_space :: "CircularBuffer \<Rightarrow> nat" where
  "code_space b =
     (if read_a b > write_a b then read_a b - write_a b
      else if read_a b < write_a b then length (samples b) - write_a b + read_a b
      else 0)"

section \<open>Sequencer\<close>

definition buffer_size :: nat where
  "buffer_size = 1024"

definition samples_per_sec :: nat where
  "samples_per_sec = 44100"

record Sequencer =
  bpm :: int
  pattern :: "real list"
  sample :: nat

definition new_sequencer :: Sequencer where
  "new_sequencer =
     \<lparr>bpm = 138 * 4, pattern = [440, 0, 698.5, 400, 554.4, 698.5, 830.6, 554.4], sample = 0\<rparr>"

text \<open>The conversion of an \<^verbatim>\<open>int\<close> to \<^verbatim>\<open>unsigned\<close> (32 bits).\<close>

definition to_unsigned :: "int \<Rightarrow> nat" where
  "to_unsigned i = nat (i mod 2 ^ 32)"

text \<open>
  \<^verbatim>\<open>60 * samples_per_sec / bpm\<close> is computed in \<^verbatim>\<open>unsigned\<close>: the product wraps at
  \<open>2 ^ 32\<close>, \<open>bpm\<close> is converted, the division is integer division.
\<close>

definition beat_length :: "Sequencer \<Rightarrow> error + nat" where
  "beat_length s =
     (let d = to_unsigned (bpm s) in
      if d = 0 then Inl DivByZero
      else Inr (((60 * samples_per_sec) mod 2 ^ 32) div d))"

definition pattern_length :: "Sequencer \<Rightarrow> error + nat" where
  "pattern_length s =
     (case beat_length s of Inl e \<Rightarrow> Inl e | Inr bl \<Rightarrow> Inr ((bl * 8) mod 2 ^ 32))"

definition Sequencer_tick :: "Sequencer \<Rightarrow> nat \<Rightarrow> error + (real \<times> Sequencer)" where
  "Sequencer_tick s count =
     (case beat_length s of
        Inl e \<Rightarrow> Inl e
      | Inr bl \<Rightarrow>
          (case pattern_length s of
             Inl e \<Rightarrow> Inl e
           | Inr pl \<Rightarrow>
               if bl = 0 then Inl DivByZero
               else if length (pattern s) \<le> sample s div bl then Inl OutOfBounds
               else if pl = 0 then Inl DivByZero
               else Inr (pattern s ! (sample s div bl),
                         s\<lparr>sample := ((sample s + count) mod 2 ^ 64) mod pl\<rparr>)))"

text \<open>Successive calls of \<open>tick\<close>, one per block: the notes returned and the final state.\<close>

fun Sequencer_run :: "Sequencer \<Rightarrow> nat list \<Rightarrow> error + (real list \<times> Sequencer)" where
  "Sequencer_run s [] = Inr ([], s)"
| "Sequencer_run s (c # cs) =
     (case Sequencer_tick s c of
        Inl e \<Rightarrow> Inl e
      | Inr (note, s') \<Rightarrow>
          (case Sequencer_run s' cs of
             Inl e \<Rightarrow> Inl e
           | Inr (notes, s'') \<Rightarrow> Inr (note # notes, s'')))"

section \<open>SawTooth\<close>

text \<open>\<^verbatim>\<open>std::clamp(v, lo, hi)\<close>.\<close>

definition clamp :: "real \<Rightarrow> real \<Rightarrow> real \<Rightarrow> real" where
  "clamp v lo hi = (if v < lo then lo else if hi < v then hi else v)"

text \<open>The conversion of a floating-point value to \<^verbatim>\<open>int16_t\<close>.\<close>

definition trunc :: "real \<Rightarrow> int" where
  "trunc v = (if 0 \<le> v then \<lfloor>v\<rfloor> else \<lceil>v\<rceil>)"

definition SHRT_MIN :: int where
  "SHRT_MIN = - 32768"

definition SHRT_MAX :: int where
  "SHRT_MAX = 32767"

definition to_int16 :: "real \<Rightarrow> error + int" where
  "to_int16 v =
     (let t = trunc v in if SHRT_MIN \<le> t \<and> t \<le> SHRT_MAX then Inr t else Inl Overflow)"

record SawTooth =
  tuning_v :: real
  tuning :: real
  volume :: real
  last_v :: real

definition new_sawtooth :: SawTooth where
  "new_sawtooth = \<lparr>tuning_v = 1, tuning = 1, volume = 0.25, last_v = 0\<rparr>"

text \<open>
  The arithmetic of the oscillator is in \<^verbatim>\<open>float\<close>, with two steps in \<^verbatim>\<open>double\<close>. The
  result of every operation is rounded to its type: \<open>fl\<close> rounds to \<^verbatim>\<open>float\<close>, \<open>dl\<close> to
  \<^verbatim>\<open>double\<close>. The two rounding functions are parameters of the model. What is used of
  them is what holds of rounding to nearest in a binary format with at least 24 bits of
  precision, inside its range: it is monotone, it leaves a value of the format as it is,
  and every integer of magnitude up to \<open>2 ^ 24\<close> is a value of the format.
\<close>

definition rounding :: "(real \<Rightarrow> real) \<Rightarrow> bool" where
  "rounding r =
     (mono r \<and> (\<forall>x. r (r x) = r x) \<and>
      (\<forall>n::int. \<bar>n\<bar> \<le> 16777216 \<longrightarrow> r (real_of_int n) = real_of_int n))"

text \<open>
  \<^verbatim>\<open>if (value > 1.0) { value -= 2.0; }\<close>: the comparison is exact, the subtraction is
  done in \<^verbatim>\<open>double\<close> and stored to the \<^verbatim>\<open>float\<close> \<open>value\<close>.
\<close>

definition wrap_phase :: "(real \<Rightarrow> real) \<Rightarrow> (real \<Rightarrow> real) \<Rightarrow> real \<Rightarrow> real" where
  "wrap_phase fl dl v = (if v > 1 then fl (dl (v - 2)) else v)"

text \<open>
  The loop of \<open>tick\<close>, from index \<open>i\<close> with \<open>n\<close> iterations left: it stores one sample,
  \<^verbatim>\<open>value * volume * scale\<close> (two \<^verbatim>\<open>float\<close> products, \<open>scale\<close> being the \<^verbatim>\<open>int\<close> 32767)
  converted to \<^verbatim>\<open>int16_t\<close>, and advances the phase.
\<close>

fun saw_loop :: "(real \<Rightarrow> real) \<Rightarrow> (real \<Rightarrow> real) \<Rightarrow> real \<Rightarrow> real \<Rightarrow> nat \<Rightarrow> nat \<Rightarrow> real \<Rightarrow>
    int list \<Rightarrow> error + (int list \<times> real)" where
  "saw_loop fl dl vol delta i 0 v data = Inr (data, v)"
| "saw_loop fl dl vol delta i (Suc n) v data =
     (if length data \<le> i then Inl OutOfBounds
      else case to_int16 (fl (fl (v * vol) * real_of_int SHRT_MAX)) of
             Inl e \<Rightarrow> Inl e
           | Inr x \<Rightarrow>
               saw_loop fl dl vol delta (Suc i) n (wrap_phase fl dl (fl (v + delta)))
                 (data[i := x]))"

text \<open>
  \<open>tick\<close>: the products, the quotient \<^verbatim>\<open>samples_per_sec / freq\<close> and the sum
  \<^verbatim>\<open>last + delta\<close> are \<^verbatim>\<open>float\<close> operations; \<^verbatim>\<open>2.0 / period\<close> is a \<^verbatim>\<open>double\<close> division
  stored to the \<^verbatim>\<open>float\<close> \<open>delta\<close>; the literal \<^verbatim>\<open>0.1f\<close> is 0.1 rounded to \<^verbatim>\<open>float\<close>; the
  other literals are integers.
\<close>

definition SawTooth_tick :: "(real \<Rightarrow> real) \<Rightarrow> (real \<Rightarrow> real) \<Rightarrow> SawTooth \<Rightarrow> real \<Rightarrow> int list \<Rightarrow> nat \<Rightarrow>
    error + (int list \<times> SawTooth)" where
  "SawTooth_tick fl dl s note data count =
     (let (tuning', delta, v) =
            (if note \<noteq> 0 then
               (let tuning' = clamp (fl (tuning s * tuning_v s)) (fl 0.1) 1000;
                    freq = clamp (fl (tuning' * note)) 10 10000;
                    period = fl (real samples_per_sec / freq);
                    delta = fl (dl (2 / period))
                in (tuning', delta, wrap_phase fl dl (fl (last_v s + delta))))
             else (tuning s, 0, last_v s))
      in case saw_loop fl dl (volume s) delta 0 count v data of
           Inl e \<Rightarrow> Inl e
         | Inr (data', v') \<Rightarrow> Inr (data', s\<lparr>tuning := tuning', last_v := v'\<rparr>))"

text \<open>
  The states of the oscillator that the program can be in: the initial one, one whose
  tuning control has been written by \<^verbatim>\<open>Synth::tuning\<close>, or the state left by a \<open>tick\<close>.
\<close>

inductive SawTooth_reachable :: "(real \<Rightarrow> real) \<Rightarrow> (real \<Rightarrow> real) \<Rightarrow> SawTooth \<Rightarrow> bool"
  for fl dl :: "real \<Rightarrow> real" where
  initial: "SawTooth_reachable fl dl new_sawtooth"
| control: "SawTooth_reachable fl dl s \<Longrightarrow> SawTooth_reachable fl dl (s\<lparr>tuning_v := t\<rparr>)"
| ticked: "SawTooth_reachable fl dl s \<Longrightarrow>
     SawTooth_tick fl dl s note data count = Inr (data', s') \<Longrightarrow> SawTooth_reachable fl dl s'"

section \<open>LowPass\<close>

record LowPass =
  rc_v :: real
  rc :: real
  value_a :: "real list"

definition new_lowpass :: LowPass where
  "new_lowpass = \<lparr>rc_v = 1, rc = 0.5, value_a = [0, 0, 0, 0]\<rparr>"

text \<open>The inner loop over the block for stage \<open>j\<close>, from index \<open>i\<close> with \<open>n\<close> iterations left.\<close>

fun lowpass_inner :: "real \<Rightarrow> nat \<Rightarrow> nat \<Rightarrow> nat \<Rightarrow> real list \<Rightarrow> int list \<Rightarrow> error + (real list \<times> int list)" where
  "lowpass_inner c j i 0 vs data = Inr (vs, data)"
| "lowpass_inner c j i (Suc n) vs data =
     (if length data \<le> i \<or> length vs \<le> j then Inl OutOfBounds
      else let v = clamp (real_of_int (data ! i) * c + vs ! j * (1 - c))
                         (real_of_int SHRT_MIN) (real_of_int SHRT_MAX)
           in case to_int16 v of
                Inl e \<Rightarrow> Inl e
              | Inr x \<Rightarrow> lowpass_inner c j (Suc i) n (vs[j := v]) (data[i := x]))"

text \<open>The outer loop over the stages, from stage \<open>j\<close> with \<open>m\<close> stages left.\<close>

fun lowpass_outer :: "real \<Rightarrow> nat \<Rightarrow> nat \<Rightarrow> nat \<Rightarrow> real list \<Rightarrow> int list \<Rightarrow> error + (real list \<times> int list)" where
  "lowpass_outer c j 0 count vs data = Inr (vs, data)"
| "lowpass_outer c j (Suc m) count vs data =
     (case lowpass_inner c j 0 count vs data of
        Inl e \<Rightarrow> Inl e
      | Inr (vs', data') \<Rightarrow> lowpass_outer c (Suc j) m count vs' data')"

definition LowPass_tick :: "LowPass \<Rightarrow> int list \<Rightarrow> nat \<Rightarrow> error + (int list \<times> LowPass)" where
  "LowPass_tick s data count =
     (let c = clamp (rc s * rc_v s) 0 1 in
      case lowpass_outer c 0 4 count (value_a s) data of
        Inl e \<Rightarrow> Inl e
      | Inr (vs, data') \<Rightarrow> Inr (data', s\<lparr>rc := c, value_a := vs\<rparr>))"

text \<open>A list of values within the range of \<^verbatim>\<open>int16_t\<close>.\<close>

definition in_int16 :: "int \<Rightarrow> bool" where
  "in_int16 x = (SHRT_MIN \<le> x \<and> x \<le> SHRT_MAX)"

definition in_sample_range :: "real \<Rightarrow> bool" where
  "in_sample_range v = (real_of_int SHRT_MIN \<le> v \<and> v \<le> real_of_int SHRT_MAX)"

section \<open>Properties of the circular buffer\<close>

lemma read_span_length: "read_span xs off n = Inr ys \<Longrightarrow> length ys = n"
  by (auto simp: read_span_def split: if_splits)

lemma write_span_length: "write_span xs off ys = Inr zs \<Longrightarrow> length zs = length xs"
  by (auto simp: write_span_def split: if_splits)

lemma std_copy_length: "std_copy src soff n dest doff = Inr zs \<Longrightarrow> length zs = length dest"
  by (auto simp: std_copy_def write_span_length split: sum.splits)

lemma ring_put_length: "length (ring_put buf w xs) = length buf"
  by (induction xs arbitrary: buf w) simp_all

lemma ring_put_span:
  "w + length xs \<le> length buf \<Longrightarrow>
   ring_put buf w xs = take w buf @ xs @ drop (w + length xs) buf"
proof (induction xs arbitrary: buf w)
  case Nil
  then show ?case by simp
next
  case (Cons x xs)
  show ?case
  proof (cases xs)
    case Nil
    then show ?thesis
      using Cons.prems by (simp add: upd_conv_take_nth_drop)
  next
    case (Cons y ys)
    then have w: "Suc w < length buf"
      using Cons.prems by simp
    then have "ring_put (buf[w := x]) (Suc w) xs =
        take (Suc w) (buf[w := x]) @ xs @ drop (Suc w + length xs) (buf[w := x])"
      using Cons.prems by (intro Cons.IH) simp
    moreover have "take (Suc w) (buf[w := x]) = take w buf @ [x]"
      using w by (simp add: take_Suc_conv_app_nth)
    ultimately show ?thesis
      using w by simp
  qed
qed

lemma ring_put_append:
  "w < length buf \<Longrightarrow>
   ring_put buf w (xs @ ys) = ring_put (ring_put buf w xs) ((w + length xs) mod length buf) ys"
proof (induction xs arbitrary: buf w)
  case Nil
  then show ?case by simp
next
  case (Cons x xs)
  have "0 < length buf"
    using Cons.prems by auto
  then have "Suc w mod length buf < length (buf[w := x])"
    by simp
  then have "ring_put (buf[w := x]) (Suc w mod length buf) (xs @ ys) =
      ring_put (ring_put (buf[w := x]) (Suc w mod length buf) xs)
        ((Suc w mod length buf + length xs) mod length (buf[w := x])) ys"
    by (rule Cons.IH)
  moreover have "(Suc w mod length buf + length xs) mod length buf =
      (w + Suc (length xs)) mod length buf"
    by (simp add: mod_add_left_eq)
  ultimately show ?case
    by simp
qed

lemma copy_in_first:
  assumes "first b" "write_a b = 0" "samples b \<noteq> []" "count \<le> length src"
  shows "copy_in b src count =
    Inr (count - min count (length (samples b)),
         b\<lparr>samples := take (min count (length (samples b))) src @
                        drop (min count (length (samples b))) (samples b),
           write_a := min count (length (samples b)) mod length (samples b),
           first := False\<rparr>)"
  using assms
  by (simp add: copy_in_def std_copy_def read_span_def write_span_def Let_def min_def)

lemma std_copy_ring_put:
  assumes "soff + n \<le> length src" "doff + n \<le> length dest"
  shows "std_copy src soff n dest doff = Inr (ring_put dest doff (take n (drop soff src)))"
  using assms by (simp add: std_copy_def read_span_def write_span_def ring_put_span)

lemma copy_in_init_case:
  assumes "copy_in b src count = Inr (left, b')" "first b"
  shows "\<exists>d. std_copy src 0 (min count (length (samples b))) (samples b) (write_a b) = Inr d
      \<and> b' = b\<lparr>samples := d,
             write_a := (write_a b + min count (length (samples b))) mod length (samples b),
             first := False\<rparr>
      \<and> left = count - min count (length (samples b))"
  using assms by (auto simp: copy_in_def Let_def split: sum.splits if_splits)

lemma copy_in_gap_case:
  assumes "copy_in b src count = Inr (left, b')" "\<not> first b" "read_a b > write_a b"
  shows "\<exists>d. std_copy src 0 (min count (read_a b - write_a b)) (samples b) (write_a b) = Inr d
      \<and> b' = b\<lparr>samples := d,
             write_a := (write_a b + min count (read_a b - write_a b)) mod length (samples b),
             first := False\<rparr>
      \<and> left = count - min count (read_a b - write_a b)"
  using assms by (auto simp: copy_in_def Let_def split: sum.splits if_splits)

lemma copy_in_wrap_unfold:
  assumes "\<not> first b" "read_a b < write_a b"
    and "size1 = min (length (samples b) - write_a b) count"
    and "size2 = max 0 (min (count - size1) (read_a b))"
  shows "copy_in b src count =
     (case std_copy src 0 size1 (samples b) (write_a b) of
        Inl e \<Rightarrow> Inl e
      | Inr d1 \<Rightarrow>
          (case std_copy src size1 size2 d1 0 of
             Inl e \<Rightarrow> Inl e
           | Inr d2 \<Rightarrow>
               if length (samples b) = 0 then Inl DivByZero
               else Inr (count - (size1 + size2),
                         b\<lparr>samples := d2,
                           write_a := (write_a b + (size1 + size2)) mod length (samples b),
                           first := False\<rparr>)))"
  using assms(1,2) unfolding assms(3,4) copy_in_def Let_def
  by (simp split: sum.split)

lemma copy_in_wrap_case:
  assumes "copy_in b src count = Inr (left, b')" "\<not> first b" "read_a b < write_a b"
    and "size1 = min (length (samples b) - write_a b) count"
    and "size2 = max 0 (min (count - size1) (read_a b))"
  shows "\<exists>d1 d2. std_copy src 0 size1 (samples b) (write_a b) = Inr d1
      \<and> std_copy src size1 size2 d1 0 = Inr d2
      \<and> b' = b\<lparr>samples := d2,
             write_a := (write_a b + (size1 + size2)) mod length (samples b),
             first := False\<rparr>
      \<and> left = count - (size1 + size2)"
  using assms(1) unfolding copy_in_wrap_unfold [OF assms(2-5)]
  by (auto split: sum.splits if_splits)

lemma copy_in_full_case:
  assumes "copy_in b src count = Inr (left, b')" "\<not> first b" "read_a b = write_a b"
  shows "b' = b\<lparr>samples := samples b, write_a := write_a b mod length (samples b),
             first := False\<rparr> \<and> left = count"
  using assms by (simp add: copy_in_def Let_def split: if_splits)

lemma copy_in_shape:
  assumes "copy_in b src count = Inr (left, b')"
  shows "\<exists>n d. n \<le> count \<and> left = count - n \<and> length d = length (samples b) \<and>
     b' = b\<lparr>samples := d, write_a := (write_a b + n) mod length (samples b), first := False\<rparr> \<and>
     n \<le> (if first b then length (samples b) else code_space b)"
proof -
  consider (init) "first b" | (gap) "\<not> first b" "read_a b > write_a b"
    | (wrap) "\<not> first b" "read_a b < write_a b" | (full) "\<not> first b" "read_a b = write_a b"
    using nat_neq_iff by blast
  then show ?thesis
  proof cases
    case init
    let ?n = "min count (length (samples b))"
    obtain d where c: "std_copy src 0 ?n (samples b) (write_a b) = Inr d"
      and b': "b' = b\<lparr>samples := d, write_a := (write_a b + ?n) mod length (samples b),
             first := False\<rparr>"
      and l: "left = count - ?n"
      using copy_in_init_case [OF assms init] by blast
    have "length d = length (samples b)"
      using c by (rule std_copy_length)
    then show ?thesis
      using init b' l by (intro exI [of _ ?n] exI [of _ d]) simp
  next
    case gap
    let ?n = "min count (read_a b - write_a b)"
    obtain d where c: "std_copy src 0 ?n (samples b) (write_a b) = Inr d"
      and b': "b' = b\<lparr>samples := d, write_a := (write_a b + ?n) mod length (samples b),
             first := False\<rparr>"
      and l: "left = count - ?n"
      using copy_in_gap_case [OF assms gap] by blast
    have "length d = length (samples b)"
      using c by (rule std_copy_length)
    then show ?thesis
      using gap b' l by (intro exI [of _ ?n] exI [of _ d]) (simp add: code_space_def)
  next
    case wrap
    define size1 where "size1 = min (length (samples b) - write_a b) count"
    define size2 where "size2 = max 0 (min (count - size1) (read_a b))"
    obtain d1 d2 where c1: "std_copy src 0 size1 (samples b) (write_a b) = Inr d1"
      and c2: "std_copy src size1 size2 d1 0 = Inr d2"
      and b': "b' = b\<lparr>samples := d2,
             write_a := (write_a b + (size1 + size2)) mod length (samples b),
             first := False\<rparr>"
      and l: "left = count - (size1 + size2)"
      using copy_in_wrap_case [OF assms wrap size1_def size2_def] by blast
    have "length d2 = length d1"
      using c2 by (rule std_copy_length)
    also have "\<dots> = length (samples b)"
      using c1 by (rule std_copy_length)
    finally have len: "length d2 = length (samples b)" .
    have "size1 + size2 \<le> count" "size1 + size2 \<le> length (samples b) - write_a b + read_a b"
      unfolding size1_def size2_def by simp_all
    then show ?thesis
      using wrap b' l len by (intro exI [of _ "size1 + size2"] exI [of _ d2]) (simp add: code_space_def)
  next
    case full
    then show ?thesis
      using copy_in_full_case [OF assms full]
      by (intro exI [of _ 0] exI [of _ "samples b"]) simp
  qed
qed

lemma copy_out_behind:
  assumes "read_a b < write_a b" "write_a b \<le> length (samples b)"
  shows "copy_out b count =
    Inr (count - min count (write_a b - read_a b),
         take (min count (write_a b - read_a b)) (drop (read_a b) (samples b)),
         b\<lparr>read_a := (read_a b + min count (write_a b - read_a b)) mod length (samples b)\<rparr>)"
  using assms by (auto simp: copy_out_def read_span_def Let_def)

lemma copy_out_wrap:
  assumes "write_a b \<le> read_a b" "read_a b < length (samples b)"
  shows "copy_out b count =
    (let size1 = min (length (samples b) - read_a b) count;
         size2 = min (count - size1) (write_a b)
     in Inr (count - (size1 + size2),
             take size1 (drop (read_a b) (samples b)) @ take size2 (samples b),
             b\<lparr>read_a := (read_a b + (size1 + size2)) mod length (samples b)\<rparr>))"
  using assms by (auto simp: copy_out_def read_span_def Let_def)

lemma copy_out_effect:
  assumes "read_a b < length (samples b)" "write_a b < length (samples b)"
  shows "\<exists>n dest. n \<le> count \<and> length dest = n \<and>
     copy_out b count = Inr (count - n, dest, b\<lparr>read_a := (read_a b + n) mod length (samples b)\<rparr>)"
proof (cases "read_a b < write_a b")
  case True
  then show ?thesis
    using assms copy_out_behind [of b count] by auto
next
  case False
  then show ?thesis
    using assms copy_out_wrap [of b count]
    by (auto simp: Let_def intro!: exI [of _ "min (length (samples b) - read_a b) count +
       min (count - min (length (samples b) - read_a b) count) (write_a b)"])
qed

lemma step_Read_inv:
  assumes "history_inv sz h" "step h (Read count) = Inr h'"
  shows "history_inv sz h'"
proof -
  have "read_a (buffer h) < length (samples (buffer h))" "write_a (buffer h) < length (samples (buffer h))"
    using assms(1) by (simp_all add: history_inv_def)
  then obtain n dest where n: "n \<le> count"
    and "copy_out (buffer h) count =
      Inr (count - n, dest, (buffer h)\<lparr>read_a := (read_a (buffer h) + n) mod length (samples (buffer h))\<rparr>)"
    using copy_out_effect [of "buffer h" count] by blast
  then have h': "h' = h\<lparr>buffer := (buffer h)\<lparr>read_a := (read_a (buffer h) + n) mod length (samples (buffer h))\<rparr>,
      consumed := consumed h + n\<rparr>"
    using assms(2) by simp
  show ?thesis
    using assms(1) unfolding h' history_inv_def by (simp add: mod_add_left_eq)
qed

lemma mod_shift:
  fixes r d sz :: nat
  assumes "0 < sz" "d < sz"
  shows "(r + d) mod sz = (if r mod sz + d < sz then r mod sz + d else r mod sz + d - sz)"
proof -
  have R: "r mod sz < sz"
    using assms(1) by simp
  have e: "(r + d) mod sz = (r mod sz + d) mod sz"
    by (simp add: mod_add_left_eq)
  show ?thesis
  proof (cases "r mod sz + d < sz")
    case True
    then show ?thesis
      using e by simp
  next
    case False
    then have "(r mod sz + d) mod sz = (r mod sz + d - sz) mod sz"
      by (simp add: le_mod_geq)
    also have "\<dots> = r mod sz + d - sz"
      using R assms(2) by (intro mod_less) linarith
    finally show ?thesis
      using e False by simp
  qed
qed

lemma gap_bound:
  fixes w r sz :: nat
  assumes "0 < sz" "w \<le> r + sz" "w mod sz < r mod sz"
  shows "w + (r mod sz - w mod sz) \<le> r + sz"
proof (cases "w \<le> r")
  case True
  have "r mod sz < sz"
    using assms(1) by simp
  then show ?thesis
    using True by linarith
next
  case False
  define d where "d = w - r"
  have w: "w = r + d" and d: "0 < d" "d \<le> sz"
    using False assms(2) by (simp_all add: d_def)
  have "d \<noteq> sz"
    using assms(3) w by auto
  then have dl: "d < sz"
    using d by simp
  have "w mod sz = (if r mod sz + d < sz then r mod sz + d else r mod sz + d - sz)"
    unfolding w using assms(1) dl by (rule mod_shift)
  then show ?thesis
    using assms(3) d w by (auto split: if_splits)
qed

lemma wrap_bound:
  fixes w r sz :: nat
  assumes "0 < sz" "w \<le> r + sz" "r mod sz < w mod sz"
  shows "w + (sz - w mod sz + r mod sz) \<le> r + sz"
proof (cases "w \<le> r")
  case True
  have "w mod sz < sz"
    using assms(1) by simp
  then show ?thesis
    using True assms(3) by linarith
next
  case False
  define d where "d = w - r"
  have w: "w = r + d" and d: "0 < d" "d \<le> sz"
    using False assms(2) by (simp_all add: d_def)
  have "d \<noteq> sz"
    using assms(3) w by auto
  then have dl: "d < sz"
    using d by simp
  have "w mod sz = (if r mod sz + d < sz then r mod sz + d else r mod sz + d - sz)"
    unfolding w using assms(1) dl by (rule mod_shift)
  then show ?thesis
    using assms(3) d dl w by (auto split: if_splits)
qed

lemma step_Write_inv:
  assumes "history_inv sz h" "step h (Write src count) = Inr h'"
  shows "history_inv sz h'"
proof -
  obtain left b' where c: "copy_in (buffer h) src count = Inr (left, b')"
    and h': "h' = h\<lparr>buffer := b', written := written h + (count - left)\<rparr>"
    using assms(2) by (auto split: sum.splits)
  obtain n d where nd: "n \<le> count" "left = count - n" "length d = length (samples (buffer h))"
    "b' = (buffer h)\<lparr>samples := d,
       write_a := (write_a (buffer h) + n) mod length (samples (buffer h)), first := False\<rparr>"
    "n \<le> (if first (buffer h) then length (samples (buffer h)) else code_space (buffer h))"
    using copy_in_shape [OF c] by blast
  then have n: "n \<le> count" "left = count - n"
    "length (samples b') = length (samples (buffer h))" "read_a b' = read_a (buffer h)"
    "write_a b' = (write_a (buffer h) + n) mod length (samples (buffer h))" "\<not> first b'"
    "n \<le> (if first (buffer h) then length (samples (buffer h)) else code_space (buffer h))"
    by simp_all
  have inv: "0 < sz" "length (samples (buffer h)) = sz"
    "read_a (buffer h) = consumed h mod sz" "write_a (buffer h) = written h mod sz"
    "written h \<le> consumed h + sz" "first (buffer h) \<Longrightarrow> written h = 0"
    using assms(1) by (auto simp: history_inv_def split: if_splits)
  have "written h + n \<le> consumed h + sz"
  proof (cases "first (buffer h)")
    case True
    then show ?thesis
      using n(7) inv by simp
  next
    case False
    then have le: "n \<le> code_space (buffer h)"
      using n(7) by simp
    consider (gap) "written h mod sz < consumed h mod sz"
      | (wrap) "consumed h mod sz < written h mod sz"
      | (full) "consumed h mod sz = written h mod sz"
      by linarith
    then show ?thesis
    proof cases
      case gap
      then show ?thesis
        using le inv gap_bound [of sz "written h" "consumed h"] by (simp add: code_space_def)
    next
      case wrap
      then show ?thesis
        using le inv wrap_bound [of sz "written h" "consumed h"] by (simp add: code_space_def)
    next
      case full
      then show ?thesis
        using le inv by (simp add: code_space_def)
    qed
  qed
  moreover have "count - left = n"
    using n(1,2) by simp
  ultimately show ?thesis
    unfolding h' history_inv_def using inv n by (simp add: mod_add_left_eq)
qed

lemma step_inv: "history_inv sz h \<Longrightarrow> step h a = Inr h' \<Longrightarrow> history_inv sz h'"
  by (cases a) (auto intro: step_Write_inv step_Read_inv)

lemma run_inv: "history_inv sz h \<Longrightarrow> run h as = Inr h' \<Longrightarrow> history_inv sz h'"
proof (induction as arbitrary: h)
  case Nil
  then show ?case by simp
next
  case (Cons a as)
  then show ?case
    by (auto split: sum.splits dest: step_inv)
qed

lemma start_inv: "0 < sz \<Longrightarrow> history_inv sz (start sz)"
  by (simp add: history_inv_def start_def new_buffer_def)

lemma cursors_in_range:
  assumes "0 < sz" "run (start sz) as = Inr h"
  shows "length (samples (buffer h)) = sz \<and> read_a (buffer h) < sz \<and> write_a (buffer h) < sz"
  using run_inv [OF start_inv [OF assms(1)] assms(2)] by (simp add: history_inv_def)

lemma producer_within_capacity:
  assumes "0 < sz" "run (start sz) as = Inr h"
  shows "written h \<le> consumed h + sz"
  using run_inv [OF start_inv [OF assms(1)] assms(2)] by (simp add: history_inv_def)

section \<open>Claims about the circular buffer\<close>

text \<open>
  Claim C1: on a buffer of capacity \<open>2N\<close>, after any interleaving of \<open>copy_in\<close> and
  \<open>copy_out\<close> calls from the initial state, the consumer has never advanced past the
  producer, and the producer is never more than the capacity ahead of the consumer.

  The producer's half holds (lemma \<open>producer_within_capacity\<close>). The consumer's half
  does not: \<open>copy_out\<close> takes equal cursors for a full buffer, also when nothing has been
  written yet or when everything written has been read. With \<open>N = 1024\<close>: a first
  \<open>copy_out\<close> of 1024 on the new buffer hands out 1024 samples although none was written;
  and after one write of 1024 samples and one read of 1024, a second read of 1024 hands
  out 1024 more, so 2048 samples are consumed of 1024 written.
\<close>

theorem consumer_overtakes_producer:
  "run (start 2048) [Read 1024] =
     Inr \<lparr>buffer = \<lparr>samples = replicate 2048 0, write_a = 0, read_a = 1024, first = True\<rparr>,
          written = 0, consumed = 1024\<rparr> \<and>
   run (start 2048) [Write (replicate 1024 1) 1024, Read 1024, Read 1024] =
     Inr \<lparr>buffer = \<lparr>samples = replicate 1024 1 @ replicate 1024 0, write_a = 1024,
                     read_a = 0, first = False\<rparr>,
          written = 1024, consumed = 2048\<rparr>"
proof -
  let ?xs = "replicate 1024 1 @ replicate 1024 (0::int)"
  let ?h1 = "\<lparr>buffer = \<lparr>samples = ?xs, write_a = 1024, read_a = 0, first = False\<rparr>,
              written = 1024, consumed = 0\<rparr>"
  let ?h2 = "\<lparr>buffer = \<lparr>samples = ?xs, write_a = 1024, read_a = 1024, first = False\<rparr>,
              written = 1024, consumed = 1024\<rparr>"
  let ?h3 = "\<lparr>buffer = \<lparr>samples = ?xs, write_a = 1024, read_a = 0, first = False\<rparr>,
              written = 1024, consumed = 2048\<rparr>"
  have 0: "run (start 2048) [Read 1024] =
     Inr \<lparr>buffer = \<lparr>samples = replicate 2048 0, write_a = 0, read_a = 1024, first = True\<rparr>,
          written = 0, consumed = 1024\<rparr>"
    by (simp add: start_def new_buffer_def copy_out_wrap Let_def)
  have 1: "step (start 2048) (Write (replicate 1024 1) 1024) = Inr ?h1"
    by (simp add: start_def new_buffer_def copy_in_first)
  have 2: "step ?h1 (Read 1024) = Inr ?h2"
    by (simp add: copy_out_behind)
  have 3: "step ?h2 (Read 1024) = Inr ?h3"
    by (simp add: copy_out_wrap Let_def)
  have "run (start 2048) [Write (replicate 1024 1) 1024, Read 1024, Read 1024] = Inr ?h3"
    by (simp only: run.simps 1 2 3 sum.case)
  then show ?thesis
    using 0 by simp
qed

text \<open>
  Claim C3: on a new buffer of capacity 2048, \<open>copy_in\<close> of 1024 samples returns
  shortfall 0, the following \<open>copy_out\<close> of 1024 returns exactly these samples with
  shortfall 0, and \<open>has_space\<close> is true right after that read.

  The two transfers are as claimed. Both cursors are then 1024, and \<open>has_space\<close>, which
  compares the cursors, is false although the buffer holds no unread sample.
\<close>

theorem scenario_has_space:
  assumes "length src = 1024"
  shows "copy_in (new_buffer 2048) src 1024 =
           Inr (0, \<lparr>samples = src @ replicate 1024 0, write_a = 1024, read_a = 0,
                    first = False\<rparr>) \<and>
         copy_out \<lparr>samples = src @ replicate 1024 0, write_a = 1024, read_a = 0,
                    first = False\<rparr> 1024 =
           Inr (0, src, \<lparr>samples = src @ replicate 1024 0, write_a = 1024, read_a = 1024,
                         first = False\<rparr>) \<and>
         has_space \<lparr>samples = src @ replicate 1024 0, write_a = 1024, read_a = 1024,
                     first = False\<rparr> = False"
  using assms
  by (simp add: new_buffer_def copy_in_first copy_out_behind has_space_def)

text \<open>The scenario at a block of 1024 samples of value 7.\<close>

theorem scenario_has_space_witness:
  "length (replicate 1024 (7::int)) = 1024 \<and>
   copy_in (new_buffer 2048) (replicate 1024 7) 1024 =
     Inr (0, \<lparr>samples = replicate 1024 7 @ replicate 1024 0, write_a = 1024, read_a = 0,
              first = False\<rparr>) \<and>
   copy_out \<lparr>samples = replicate 1024 7 @ replicate 1024 0, write_a = 1024, read_a = 0,
              first = False\<rparr> 1024 =
     Inr (0, replicate 1024 7,
          \<lparr>samples = replicate 1024 7 @ replicate 1024 0, write_a = 1024, read_a = 1024,
           first = False\<rparr>) \<and>
   has_space \<lparr>samples = replicate 1024 7 @ replicate 1024 0, write_a = 1024, read_a = 1024,
               first = False\<rparr> = False"
  using scenario_has_space [of "replicate 1024 7"] by simp

text \<open>
  What \<open>copy_in\<close> does on a call that is not the first, with both cursors inside the
  vector: it stores the first \<open>min count (code_space b)\<close> samples of the source at
  consecutive positions from the write cursor, wrapping at the end of the vector
  (\<open>ring_put\<close>), advances the write cursor by that amount modulo the size, and returns the
  rest of \<open>count\<close>.
\<close>

lemma copy_in_code_space:
  assumes nf: "\<not> first b" and r: "read_a b < length (samples b)"
    and w: "write_a b < length (samples b)" and c: "count \<le> length src"
  shows "copy_in b src count = Inr (ring_write (code_space b) b src count)"
proof -
  have ne: "samples b \<noteq> []"
    using r by auto
  consider (gap) "read_a b > write_a b" | (wrap) "read_a b < write_a b" | (full) "read_a b = write_a b"
    by linarith
  then show ?thesis
  proof cases
    case gap
    let ?n = "min count (read_a b - write_a b)"
    have "std_copy src 0 ?n (samples b) (write_a b) =
        Inr (ring_put (samples b) (write_a b) (take ?n src))"
      using std_copy_ring_put [of 0 ?n src "write_a b" "samples b"] gap r c by simp
    then show ?thesis
      using gap nf r ne by (simp add: copy_in_def ring_write_def code_space_def Let_def)
  next
    case wrap
    let ?size1 = "min (length (samples b) - write_a b) count"
    let ?size2 = "max 0 (min (count - ?size1) (read_a b))"
    let ?d1 = "ring_put (samples b) (write_a b) (take ?size1 src)"
    have 1: "std_copy src 0 ?size1 (samples b) (write_a b) = Inr ?d1"
      using std_copy_ring_put [of 0 ?size1 src "write_a b" "samples b"] w c by simp
    have 2: "std_copy src ?size1 ?size2 ?d1 0 =
        Inr (ring_put ?d1 0 (take ?size2 (drop ?size1 src)))"
      using r c by (intro std_copy_ring_put) (auto simp: ring_put_length)
    have n: "min count (length (samples b) - write_a b + read_a b) = ?size1 + ?size2"
      using wrap w by (auto simp: min_def)
    have wmod: "?size2 = 0 \<or> (write_a b + ?size1) mod length (samples b) = 0"
      using wrap w by (auto simp: min_def)
    have len1: "length (take ?size1 src) = ?size1"
      using c by simp
    have "ring_put (samples b) (write_a b) (take (?size1 + ?size2) src) =
        ring_put ?d1 ((write_a b + ?size1) mod length (samples b)) (take ?size2 (drop ?size1 src))"
      using ring_put_append [OF w, of "take ?size1 src" "take ?size2 (drop ?size1 src)"]
      unfolding take_add len1 .
    also have "\<dots> = ring_put ?d1 0 (take ?size2 (drop ?size1 src))"
      using wmod by auto
    finally have put: "ring_put (samples b) (write_a b) (take (?size1 + ?size2) src) =
        ring_put ?d1 0 (take ?size2 (drop ?size1 src))" .
    have space: "code_space b = length (samples b) - write_a b + read_a b"
      using wrap by (simp add: code_space_def)
    show ?thesis
      unfolding copy_in_def ring_write_def space n Let_def put
      using wrap nf r ne 1 2 by simp
  next
    case full
    then show ?thesis
      using nf r ne by (simp add: copy_in_def ring_write_def code_space_def Let_def)
  qed
qed

text \<open>
  Claim C4, as amended: for every call of \<open>copy_in\<close> that is not the first, when the
  reader is ahead of the writer the free space is the gap \<open>read - write\<close>, and when
  the writer is ahead of the reader it is the wrap-around distance \<open>size - write +
  read\<close>; the copy is split across the wrap point, the write cursor advances by the
  amount copied and the rest of \<open>count\<close> is returned (this is \<open>spec_write\<close>, the rule of
  the claim, whenever the cursors differ). On a full buffer, one that holds as many
  unread samples as its capacity, the cursors are equal, nothing is copied and the whole
  \<open>count\<close> is returned. Nothing is said of equal cursors on a buffer that is not full.
\<close>

theorem copy_in_refines_spec_write:
  assumes "run (start sz) as = Inr h" and "0 < sz" and "\<not> first (buffer h)"
    and "count \<le> length src"
  shows "(read_a (buffer h) \<noteq> write_a (buffer h) \<longrightarrow>
            copy_in (buffer h) src count = Inr (spec_write (buffer h) src count)) \<and>
         (written h = consumed h + sz \<longrightarrow>
            read_a (buffer h) = write_a (buffer h) \<and>
            copy_in (buffer h) src count = Inr (count, buffer h))"
proof -
  have inv: "history_inv sz h"
    using run_inv [OF start_inv [OF assms(2)] assms(1)] .
  then have b: "length (samples (buffer h)) = sz" "read_a (buffer h) = consumed h mod sz"
    "write_a (buffer h) = written h mod sz"
    by (simp_all add: history_inv_def)
  then have rw: "read_a (buffer h) < length (samples (buffer h))"
    "write_a (buffer h) < length (samples (buffer h))"
    using assms(2) by simp_all
  have c: "copy_in (buffer h) src count =
      Inr (ring_write (code_space (buffer h)) (buffer h) src count)"
    using assms(3) rw assms(4) by (rule copy_in_code_space)
  have 1: "copy_in (buffer h) src count = Inr (spec_write (buffer h) src count)"
    if "read_a (buffer h) \<noteq> write_a (buffer h)"
  proof -
    have "code_space (buffer h) = spec_space (buffer h)"
      using that by (auto simp: code_space_def spec_space_def)
    then show ?thesis
      using c by (simp add: spec_write_def)
  qed
  have 2: "read_a (buffer h) = write_a (buffer h) \<and>
      copy_in (buffer h) src count = Inr (count, buffer h)"
    if "written h = consumed h + sz"
  proof -
    have e: "read_a (buffer h) = write_a (buffer h)"
      using that b by simp
    then have "code_space (buffer h) = 0"
      by (simp add: code_space_def)
    then show ?thesis
      using c e rw by (simp add: ring_write_def)
  qed
  show ?thesis
    using 1 2 by blast
qed

text \<open>
  Capacity 4. After a write of three samples and a read of two, the writer is ahead: a
  write of three samples stores one at the end and two at the start. After a first
  write of four samples the buffer is full: a write of one sample is refused.
\<close>

theorem copy_in_refines_spec_write_witness:
  "run (start 4) [Write [1, 2, 3] 3, Read 2] =
     Inr \<lparr>buffer = \<lparr>samples = [1, 2, 3, 0], write_a = 3, read_a = 2, first = False\<rparr>,
          written = 3, consumed = 2\<rparr> \<and>
   (0::nat) < 4 \<and>
   \<not> first \<lparr>samples = [1, 2, 3, 0], write_a = 3, read_a = 2, first = False\<rparr> \<and>
   (3::nat) \<le> length [7, 8, 9 :: int] \<and>
   read_a \<lparr>samples = [1, 2, 3, 0], write_a = 3, read_a = 2, first = False\<rparr> \<noteq>
     write_a \<lparr>samples = [1, 2, 3, 0], write_a = 3, read_a = 2, first = False\<rparr> \<and>
   copy_in \<lparr>samples = [1, 2, 3, 0], write_a = 3, read_a = 2, first = False\<rparr> [7, 8, 9] 3 =
     Inr (0, \<lparr>samples = [8, 9, 3, 7], write_a = 2, read_a = 2, first = False\<rparr>) \<and>
   run (start 4) [Write [1, 2, 3, 4] 4] =
     Inr \<lparr>buffer = \<lparr>samples = [1, 2, 3, 4], write_a = 0, read_a = 0, first = False\<rparr>,
          written = 4, consumed = 0\<rparr> \<and>
   \<not> first \<lparr>samples = [1, 2, 3, 4], write_a = 0, read_a = 0, first = False\<rparr> \<and>
   (1::nat) \<le> length [7 :: int] \<and>
   written \<lparr>buffer = \<lparr>samples = [1, 2, 3, 4], write_a = 0, read_a = 0, first = False\<rparr>,
            written = 4, consumed = 0\<rparr> =
     consumed \<lparr>buffer = \<lparr>samples = [1, 2, 3, 4], write_a = 0, read_a = 0, first = False\<rparr>,
               written = 4, consumed = 0\<rparr> + 4 \<and>
   copy_in \<lparr>samples = [1, 2, 3, 4], write_a = 0, read_a = 0, first = False\<rparr> [7] 1 =
     Inr (1, \<lparr>samples = [1, 2, 3, 4], write_a = 0, read_a = 0, first = False\<rparr>)"
proof -
  let ?b1 = "\<lparr>samples = [1, 2, 3, 0], write_a = 3, read_a = 2, first = False\<rparr>"
  let ?h1 = "\<lparr>buffer = ?b1, written = 3, consumed = 2\<rparr>"
  let ?b2 = "\<lparr>samples = [1, 2, 3, 4], write_a = 0, read_a = 0, first = False\<rparr>"
  let ?h2 = "\<lparr>buffer = ?b2, written = 4, consumed = 0\<rparr>"
  have z: "replicate 4 (0::int) = [0, 0, 0, 0]"
    by (simp add: eval_nat_numeral)
  have r1: "run (start 4) [Write [1, 2, 3] 3, Read 2] = Inr ?h1"
    by (simp add: start_def new_buffer_def z copy_in_first copy_out_behind)
  have r2: "run (start 4) [Write [1, 2, 3, 4] 4] = Inr ?h2"
    by (simp add: start_def new_buffer_def z copy_in_first)
  have s: "spec_write ?b1 [7, 8, 9] 3 =
      (0, \<lparr>samples = [8, 9, 3, 7], write_a = 2, read_a = 2, first = False\<rparr>)"
    by (simp add: spec_write_def ring_write_def spec_space_def)
  show ?thesis
    using copy_in_refines_spec_write [OF r1, of 3 "[7, 8, 9]"]
      copy_in_refines_spec_write [OF r2, of 1 "[7]"] r1 r2 s
    by simp
qed

text \<open>
  Claim C4 as stated gives a writer whose cursor equals the reader's the whole
  wrap-around distance. On a full buffer of four samples (both cursors 0, not the first
  write) \<open>copy_in\<close> of one sample stores nothing and returns shortfall 1, where the
  stated rule (\<open>spec_write\<close>) would store the sample and return 0.
\<close>

theorem write_equal_cursors_counterexample:
  "copy_in \<lparr>samples = [1, 2, 3, 4], write_a = 0, read_a = 0, first = False\<rparr> [7] 1 =
     Inr (1, \<lparr>samples = [1, 2, 3, 4], write_a = 0, read_a = 0, first = False\<rparr>) \<and>
   spec_write \<lparr>samples = [1, 2, 3, 4], write_a = 0, read_a = 0, first = False\<rparr> [7] 1 =
     (0, \<lparr>samples = [7, 2, 3, 4], write_a = 1, read_a = 0, first = False\<rparr>)"
  by (simp add: copy_in_def spec_write_def ring_write_def spec_space_def Let_def)

text \<open>
  On a newly constructed buffer of capacity \<open>C > 0\<close>, for every \<open>L \<le> C\<close>, \<open>copy_in\<close> of
  \<open>L\<close> samples followed at once by \<open>copy_out\<close> of \<open>L\<close> returns shortfall 0 both times
  and hands back exactly the \<open>L\<close> samples written, in order.
\<close>

lemma write_read_fresh:
  assumes "0 < C" and "L \<le> C" and "L \<le> length src"
  shows "copy_in (new_buffer C) src L =
           Inr (0, \<lparr>samples = take L src @ replicate (C - L) 0, write_a = L mod C,
                    read_a = 0, first = False\<rparr>) \<and>
         copy_out \<lparr>samples = take L src @ replicate (C - L) 0, write_a = L mod C,
                    read_a = 0, first = False\<rparr> L =
           Inr (0, take L src,
                \<lparr>samples = take L src @ replicate (C - L) 0, write_a = L mod C,
                 read_a = L mod C, first = False\<rparr>)"
proof -
  let ?b1 = "\<lparr>samples = take L src @ replicate (C - L) 0, write_a = L mod C,
               read_a = 0, first = False\<rparr>"
  have in1: "copy_in (new_buffer C) src L = Inr (0, ?b1)"
    using assms copy_in_first [of "new_buffer C" L src]
    by (simp add: new_buffer_def min_def)
  have out: "copy_out ?b1 L = Inr (0, take L src, ?b1\<lparr>read_a := L mod C\<rparr>)"
  proof (cases "L = C")
    case True
    then show ?thesis
      using assms copy_out_wrap [of ?b1 L] by (simp add: Let_def)
  next
    case False
    then have "L < C"
      using assms by simp
    then show ?thesis
      using assms copy_out_behind [of ?b1 L]
      by (cases "L = 0") (simp_all add: copy_out_wrap Let_def)
  qed
  show ?thesis
    using in1 out by simp
qed

text \<open>
  Claim C5: for every \<open>L\<close> up to the capacity, a write of \<open>L\<close> samples followed at once
  by a read of \<open>L\<close> samples hands back the samples written, with shortfall 0 both times.

  This holds on a new buffer (lemma \<open>write_read_fresh\<close>) and fails on a buffer that
  reads have emptied. Capacity 4: after a first write of two samples and a read of two,
  both cursors are 2 and the buffer holds no unread sample. A write of the two samples 5
  and 6 then stores nothing and returns shortfall 2, and the read of two that follows
  returns shortfall 0 and hands out the two samples at positions 2 and 3, which were
  never written.
\<close>

theorem write_read_after_drain:
  "copy_in (new_buffer 4) [1, 2] 2 =
     Inr (0, \<lparr>samples = [1, 2, 0, 0], write_a = 2, read_a = 0, first = False\<rparr>) \<and>
   copy_out \<lparr>samples = [1, 2, 0, 0], write_a = 2, read_a = 0, first = False\<rparr> 2 =
     Inr (0, [1, 2], \<lparr>samples = [1, 2, 0, 0], write_a = 2, read_a = 2, first = False\<rparr>) \<and>
   copy_in \<lparr>samples = [1, 2, 0, 0], write_a = 2, read_a = 2, first = False\<rparr> [5, 6] 2 =
     Inr (2, \<lparr>samples = [1, 2, 0, 0], write_a = 2, read_a = 2, first = False\<rparr>) \<and>
   copy_out \<lparr>samples = [1, 2, 0, 0], write_a = 2, read_a = 2, first = False\<rparr> 2 =
     Inr (0, [0, 0], \<lparr>samples = [1, 2, 0, 0], write_a = 2, read_a = 0, first = False\<rparr>)"
proof -
  have z: "replicate 4 (0::int) = [0, 0, 0, 0]"
    by (simp add: eval_nat_numeral)
  have "copy_in \<lparr>samples = [1, 2, 0, 0], write_a = 2, read_a = 2, first = False\<rparr> [5, 6] 2 =
      Inr (2, \<lparr>samples = [1, 2, 0, 0], write_a = 2, read_a = 2, first = False\<rparr>)"
    by (simp add: copy_in_def Let_def)
  then show ?thesis
    by (simp add: new_buffer_def z copy_in_first copy_out_behind copy_out_wrap Let_def)
qed

text \<open>
  Claim C9: on the very first call of \<open>copy_in\<close> (in any history that holds no earlier
  write, whatever was read before), with \<open>count\<close> above the capacity \<open>sz\<close>, no store
  is out of bounds (the result is not an error), exactly the first \<open>sz\<close> samples of the
  source are stored, at positions \<open>0 .. sz - 1\<close> in order, the shortfall returned is
  \<open>count - sz\<close>, and the total written is \<open>sz\<close>: the writer stops one full capacity
  after its start, with its cursor back at 0, and overwrites nothing it has written.
\<close>

theorem first_write_truncated:
  assumes "run (start sz) as = Inr h" and "first (buffer h)" and "0 < sz" and "sz < count"
    and "count \<le> length src"
  shows "copy_in (buffer h) src count =
           Inr (count - sz, (buffer h)\<lparr>samples := take sz src, write_a := 0, first := False\<rparr>) \<and>
         step h (Write src count) =
           Inr (h\<lparr>buffer := (buffer h)\<lparr>samples := take sz src, write_a := 0, first := False\<rparr>,
                  written := sz\<rparr>)"
proof -
  have inv: "history_inv sz h"
    using run_inv [OF start_inv [OF assms(3)] assms(1)] .
  then have b: "length (samples (buffer h)) = sz" "write_a (buffer h) = 0" "written h = 0"
    using assms(2) by (simp_all add: history_inv_def)
  then have "samples (buffer h) \<noteq> []"
    using assms(3) by auto
  then have "copy_in (buffer h) src count =
      Inr (count - sz, (buffer h)\<lparr>samples := take sz src, write_a := 0, first := False\<rparr>)"
    using copy_in_first [of "buffer h" count src] assms(2,4,5) b by (simp add: min_def)
  then show ?thesis
    using b assms(4) by simp
qed

text \<open>A first write of six samples into a buffer of capacity 4, after one read.\<close>

theorem first_write_truncated_witness:
  "run (start 4) [Read 2] =
     Inr \<lparr>buffer = \<lparr>samples = [0, 0, 0, 0], write_a = 0, read_a = 2, first = True\<rparr>,
          written = 0, consumed = 2\<rparr> \<and>
   first \<lparr>samples = [0, 0, 0, 0], write_a = 0, read_a = 2, first = True\<rparr> \<and>
   (0::nat) < 4 \<and> (4::nat) < 6 \<and> (6::nat) \<le> length [1, 2, 3, 4, 5, 6 :: int] \<and>
   copy_in \<lparr>samples = [0, 0, 0, 0], write_a = 0, read_a = 2, first = True\<rparr>
       [1, 2, 3, 4, 5, 6] 6 =
     Inr (2, \<lparr>samples = [1, 2, 3, 4], write_a = 0, read_a = 2, first = False\<rparr>)"
proof -
  have z: "replicate 4 (0::int) = [0, 0, 0, 0]"
    by (simp add: eval_nat_numeral)
  have r: "run (start 4) [Read 2] =
     Inr \<lparr>buffer = \<lparr>samples = [0, 0, 0, 0], write_a = 0, read_a = 2, first = True\<rparr>,
          written = 0, consumed = 2\<rparr>"
    by (simp add: start_def new_buffer_def z copy_out_wrap Let_def)
  show ?thesis
    using first_write_truncated [OF r, of 6 "[1, 2, 3, 4, 5, 6]"] r by simp
qed

section \<open>Claims about the sequencer\<close>

lemma beat_length_new: "beat_length (new_sequencer\<lparr>sample := k\<rparr>) = Inr 4793"
  by (simp add: beat_length_def new_sequencer_def to_unsigned_def samples_per_sec_def)

lemma pattern_length_new: "pattern_length (new_sequencer\<lparr>sample := k\<rparr>) = Inr 38344"
  by (simp add: pattern_length_def beat_length_new)

lemma Sequencer_tick_new:
  assumes "k < 38344" "c < 2 ^ 63"
  shows "Sequencer_tick (new_sequencer\<lparr>sample := k\<rparr>) c =
    Inr (pattern new_sequencer ! (k div 4793), new_sequencer\<lparr>sample := (k + c) mod 38344\<rparr>)"
proof -
  have "k div 4793 < 8"
    using assms(1) by (simp add: less_mult_imp_div_less)
  moreover have "(k + c) mod 2 ^ 64 = k + c"
    using assms by simp
  ultimately show ?thesis
    by (simp add: Sequencer_tick_def beat_length_new pattern_length_new)
      (simp add: new_sequencer_def)
qed

lemma Sequencer_run_new:
  assumes "k < 38344" "list_all (\<lambda>c. c < 2 ^ 63) cs"
  shows "\<exists>notes. Sequencer_run (new_sequencer\<lparr>sample := k\<rparr>) cs =
    Inr (notes, new_sequencer\<lparr>sample := (k + sum_list cs) mod 38344\<rparr>)"
  using assms
proof (induction cs arbitrary: k)
  case Nil
  then show ?case by simp
next
  case (Cons c cs)
  have "(k + c) mod 38344 < (38344::nat)"
    by simp
  then obtain ns where "Sequencer_run (new_sequencer\<lparr>sample := (k + c) mod 38344\<rparr>) cs =
      Inr (ns, new_sequencer\<lparr>sample := ((k + c) mod 38344 + sum_list cs) mod 38344\<rparr>)"
    using Cons.IH [of "(k + c) mod 38344"] Cons.prems(2) by auto
  moreover have "((k + c) mod 38344 + sum_list cs) mod 38344 = (k + (c + sum_list cs)) mod 38344"
    by (simp add: mod_add_left_eq add.assoc)
  ultimately show ?case
    using Cons.prems by (simp add: Sequencer_tick_new)
qed

text \<open>
  Claim C2, as amended: with \<open>samples_per_sec = 44100\<close> and \<open>bpm = 552\<close> the beat length
  is 4793 (the integer quotient of 2646000 by 552) and the pattern length is 38344. A
  \<open>tick\<close> at counter 0 returns 440, a \<open>tick\<close> at counter 4800 returns 0 (the second step
  of the pattern), and after blocks that add up to a multiple of the pattern length the
  sequencer is back in the state it started from, so the notes repeat. Block sizes are
  below \<open>2 ^ 63\<close>, so that the 64-bit sum \<open>sample + count\<close> does not wrap.
\<close>

theorem Sequencer_period:
  assumes "k < 38344" and "list_all (\<lambda>c. c < 2 ^ 63) cs" and "38344 dvd sum_list cs"
    and "c < 2 ^ 63"
  shows "beat_length new_sequencer = Inr 4793 \<and>
         pattern_length new_sequencer = Inr 38344 \<and>
         Sequencer_tick new_sequencer c = Inr (440, new_sequencer\<lparr>sample := c mod 38344\<rparr>) \<and>
         Sequencer_tick (new_sequencer\<lparr>sample := 4800\<rparr>) c =
           Inr (0, new_sequencer\<lparr>sample := (4800 + c) mod 38344\<rparr>) \<and>
         (\<exists>notes. Sequencer_run (new_sequencer\<lparr>sample := k\<rparr>) cs =
            Inr (notes, new_sequencer\<lparr>sample := k\<rparr>))"
proof -
  have "(k + sum_list cs) mod 38344 = k"
    using assms(1,3) by (auto simp: mod_add_right_eq [symmetric] elim!: dvdE)
  then have "\<exists>notes. Sequencer_run (new_sequencer\<lparr>sample := k\<rparr>) cs =
      Inr (notes, new_sequencer\<lparr>sample := k\<rparr>)"
    using Sequencer_run_new [OF assms(1,2)] by simp
  moreover have "Sequencer_tick new_sequencer c =
      Inr (440, new_sequencer\<lparr>sample := c mod 38344\<rparr>)"
    using Sequencer_tick_new [of 0 c] assms(4) by (simp add: new_sequencer_def)
  moreover have "Sequencer_tick (new_sequencer\<lparr>sample := 4800\<rparr>) c =
      Inr (0, new_sequencer\<lparr>sample := (4800 + c) mod 38344\<rparr>)"
    using Sequencer_tick_new [of 4800 c] assms(4) by (simp add: new_sequencer_def)
  ultimately show ?thesis
    using beat_length_new [of 0] pattern_length_new [of 0] by (simp add: new_sequencer_def)
qed

text \<open>From counter 4800, a block of 1024 and a block of 37320 samples: one full period.\<close>

theorem Sequencer_period_witness:
  "(4800::nat) < 38344 \<and> list_all (\<lambda>c. c < 2 ^ 63) [1024, 37320 :: nat] \<and>
   (38344::nat) dvd sum_list [1024, 37320] \<and> (1024::nat) < 2 ^ 63 \<and>
   Sequencer_tick new_sequencer 1024 = Inr (440, new_sequencer\<lparr>sample := 1024\<rparr>) \<and>
   Sequencer_tick (new_sequencer\<lparr>sample := 4800\<rparr>) 1024 =
     Inr (0, new_sequencer\<lparr>sample := 5824\<rparr>) \<and>
   Sequencer_run (new_sequencer\<lparr>sample := 4800\<rparr>) [1024, 37320] =
     Inr ([0, 0], new_sequencer\<lparr>sample := 4800\<rparr>)"
  using Sequencer_period [of 4800 "[1024, 37320]" 1024]
  by (simp add: Sequencer_tick_new)

text \<open>
  Claim C2 as stated has beat length 4800 and pattern length 38400; the program computes
  4793 and 38344.
\<close>

theorem Sequencer_lengths_counterexample:
  "beat_length new_sequencer \<noteq> Inr 4800 \<and> pattern_length new_sequencer \<noteq> Inr 38400"
  using beat_length_new [of 0] pattern_length_new [of 0]
  by (simp add: new_sequencer_def)

section \<open>Properties of the conversions\<close>

lemma trunc_in_range:
  assumes "real_of_int SHRT_MIN \<le> v" "v \<le> real_of_int SHRT_MAX"
  shows "SHRT_MIN \<le> trunc v \<and> trunc v \<le> SHRT_MAX"
  using assms unfolding trunc_def
  by (auto simp: le_floor_iff floor_le_iff ceiling_le_iff le_ceiling_iff)

lemma to_int16_in_range:
  assumes "real_of_int SHRT_MIN \<le> v" "v \<le> real_of_int SHRT_MAX"
  shows "to_int16 v = Inr (trunc v)"
  using trunc_in_range [OF assms] by (simp add: to_int16_def)

lemma to_int16_result: "to_int16 v = Inr x \<Longrightarrow> in_int16 x"
  by (auto simp: to_int16_def in_int16_def Let_def split: if_splits)

section \<open>Properties of rounding\<close>

lemma rounding_id: "rounding (\<lambda>x. x)"
  by (simp add: rounding_def mono_def)


lemma rounding_idem: "rounding r \<Longrightarrow> r (r x) = r x"
  by (simp add: rounding_def)

lemma rounding_int: "rounding r \<Longrightarrow> \<bar>n\<bar> \<le> 16777216 \<Longrightarrow> r (real_of_int n) = real_of_int n"
  by (simp add: rounding_def)

lemma rounding_le:
  assumes "rounding r" "x \<le> real_of_int n" "\<bar>n\<bar> \<le> 16777216"
  shows "r x \<le> real_of_int n"
proof -
  have "r x \<le> r (real_of_int n)"
    using assms(1,2) by (simp add: rounding_def mono_def)
  then show ?thesis
    using rounding_int [OF assms(1,3)] by simp
qed

lemma rounding_ge:
  assumes "rounding r" "real_of_int n \<le> x" "\<bar>n\<bar> \<le> 16777216"
  shows "real_of_int n \<le> r x"
proof -
  have "r (real_of_int n) \<le> r x"
    using assms(1,2) by (simp add: rounding_def mono_def)
  then show ?thesis
    using rounding_int [OF assms(1,3)] by simp
qed

lemma rounding_abs_le:
  assumes "rounding r" "\<bar>x\<bar> \<le> real_of_int n" "n \<le> 16777216"
  shows "\<bar>r x\<bar> \<le> real_of_int n"
proof -
  have "0 \<le> real_of_int n"
    using assms(2) abs_ge_zero [of x] by linarith
  then have n: "0 \<le> n"
    by simp
  have b: "\<bar>n\<bar> \<le> 16777216" "\<bar>- n\<bar> \<le> 16777216"
    using n assms(3) by simp_all
  have x: "x \<le> real_of_int n" "real_of_int (- n) \<le> x"
    using assms(2) by simp_all
  have "r x \<le> real_of_int n"
    using assms(1) x(1) b(1) by (rule rounding_le)
  moreover have "real_of_int (- n) \<le> r x"
    using assms(1) x(2) b(2) by (rule rounding_ge)
  ultimately show ?thesis
    by (simp add: abs_le_iff)
qed

section \<open>Properties of the oscillator\<close>

lemma scaled_phase_in_range:
  assumes fl: "rounding fl" and "\<bar>v\<bar> \<le> 1" "\<bar>vol\<bar> \<le> 1"
  shows "real_of_int SHRT_MIN \<le> fl (fl (v * vol) * real_of_int SHRT_MAX) \<and>
         fl (fl (v * vol) * real_of_int SHRT_MAX) \<le> real_of_int SHRT_MAX"
proof -
  have "\<bar>v * vol\<bar> \<le> real_of_int 1"
    using assms(2,3) by (simp add: abs_mult mult_le_one)
  then have "\<bar>fl (v * vol)\<bar> \<le> real_of_int 1"
    by (rule rounding_abs_le [OF fl]) simp
  then have "\<bar>fl (v * vol) * 32767\<bar> \<le> real_of_int 32767"
    by (simp add: abs_mult)
  then have "\<bar>fl (fl (v * vol) * 32767)\<bar> \<le> real_of_int 32767"
    by (rule rounding_abs_le [OF fl]) simp
  then show ?thesis
    by (simp add: SHRT_MIN_def SHRT_MAX_def abs_le_iff)
qed

lemma to_int16_scaled_phase:
  assumes "rounding fl" and "\<bar>v\<bar> \<le> 1" "\<bar>vol\<bar> \<le> 1"
  shows "to_int16 (fl (fl (v * vol) * real_of_int SHRT_MAX)) =
    Inr (trunc (fl (fl (v * vol) * real_of_int SHRT_MAX)))"
  using scaled_phase_in_range [OF assms] by (simp add: to_int16_in_range)

lemma wrap_phase_range:
  assumes fl: "rounding fl" and dl: "rounding dl" and "\<bar>v\<bar> \<le> 1" "0 \<le> d" "d \<le> 2"
  shows "\<bar>wrap_phase fl dl (fl (v + d))\<bar> \<le> 1"
proof -
  have "real_of_int (- 1) \<le> v + d"
    using assms(3,4) by (simp add: abs_le_iff)
  then have "real_of_int (- 1) \<le> fl (v + d)"
    by (rule rounding_ge [OF fl]) simp
  then have lo: "- 1 \<le> fl (v + d)"
    by simp
  show ?thesis
  proof (cases "fl (v + d) > 1")
    case False
    then show ?thesis
      using lo by (simp add: wrap_phase_def abs_le_iff)
  next
    case True
    have "v + d \<le> real_of_int 3"
      using assms(3,5) by (simp add: abs_le_iff)
    then have "fl (v + d) \<le> real_of_int 3"
      by (rule rounding_le [OF fl]) simp
    then have "\<bar>fl (v + d) - 2\<bar> \<le> real_of_int 1"
      using True by (simp add: abs_le_iff)
    then have "\<bar>dl (fl (v + d) - 2)\<bar> \<le> real_of_int 1"
      by (rule rounding_abs_le [OF dl]) simp
    then have "\<bar>fl (dl (fl (v + d) - 2))\<bar> \<le> real_of_int 1"
      by (rule rounding_abs_le [OF fl]) simp
    then show ?thesis
      using True by (simp add: wrap_phase_def)
  qed
qed

lemma wrap_phase_exact:
  assumes "rounding fl"
  shows "fl (wrap_phase fl dl (fl x)) = wrap_phase fl dl (fl x)"
  using assms by (simp add: wrap_phase_def rounding_idem)

lemma saw_delta_range:
  assumes fl: "rounding fl" and dl: "rounding dl"
  shows "0 \<le> fl (dl (2 / fl (real samples_per_sec / clamp f 10 10000))) \<and>
         fl (dl (2 / fl (real samples_per_sec / clamp f 10 10000))) \<le> 2"
proof -
  let ?p = "fl (real samples_per_sec / clamp f 10 10000)"
  have c: "10 \<le> clamp f 10 10000" "clamp f 10 10000 \<le> 10000"
    by (simp_all add: clamp_def)
  then have "real_of_int 4 \<le> real samples_per_sec / clamp f 10 10000"
    by (simp add: samples_per_sec_def le_divide_eq)
  then have "real_of_int 4 \<le> ?p"
    by (rule rounding_ge [OF fl]) simp
  then have p: "4 \<le> ?p"
    by simp
  then have q: "real_of_int 0 \<le> 2 / ?p" "2 / ?p \<le> real_of_int 1"
    by (simp_all add: divide_le_eq)
  have d0: "real_of_int 0 \<le> dl (2 / ?p)"
    using q(1) by (rule rounding_ge [OF dl]) simp
  have d1: "dl (2 / ?p) \<le> real_of_int 1"
    using q(2) by (rule rounding_le [OF dl]) simp
  have "real_of_int 0 \<le> fl (dl (2 / ?p))"
    using d0 by (rule rounding_ge [OF fl]) simp
  moreover have "fl (dl (2 / ?p)) \<le> real_of_int 1"
    using d1 by (rule rounding_le [OF fl]) simp
  ultimately have "0 \<le> fl (dl (2 / ?p)) \<and> fl (dl (2 / ?p)) \<le> 1"
    by simp
  then show ?thesis
    by simp
qed


lemma saw_loop_in_range:
  assumes fl: "rounding fl" and dl: "rounding dl"
    and "\<bar>v\<bar> \<le> 1" "\<bar>vol\<bar> \<le> 1" "0 \<le> d" "d \<le> 2" "i + n \<le> length data"
  shows "\<exists>data' v'. saw_loop fl dl vol d i n v data = Inr (data', v') \<and> \<bar>v'\<bar> \<le> 1 \<and>
           length data' = length data \<and>
           list_all in_int16 (take n (drop i data')) \<and>
           take i data' = take i data \<and> drop (i + n) data' = drop (i + n) data"
  using assms(3,7)
proof (induction n arbitrary: i v data)
  case 0
  then show ?case by simp
next
  case (Suc n)
  let ?x = "trunc (fl (fl (v * vol) * real_of_int SHRT_MAX))"
  let ?w = "wrap_phase fl dl (fl (v + d))"
  have conv: "to_int16 (fl (fl (v * vol) * real_of_int SHRT_MAX)) = Inr ?x"
    using fl Suc.prems(1) assms(4) by (rule to_int16_scaled_phase)
  have x: "in_int16 ?x"
    using conv by (rule to_int16_result)
  have "\<bar>?w\<bar> \<le> 1"
    using fl dl Suc.prems(1) assms(5,6) by (rule wrap_phase_range)
  moreover have "Suc i + n \<le> length (data[i := ?x])"
    using Suc.prems by simp
  ultimately obtain data' v' where
    r: "saw_loop fl dl vol d (Suc i) n ?w (data[i := ?x]) = Inr (data', v')"
    and v': "\<bar>v'\<bar> \<le> 1"
    and len: "length data' = length data"
    and ran: "list_all in_int16 (take n (drop (Suc i) data'))"
    and pre: "take (Suc i) data' = take (Suc i) (data[i := ?x])"
    and post: "drop (Suc i + n) data' = drop (Suc i + n) (data[i := ?x])"
    using Suc.IH [of ?w "Suc i" "data[i := ?x]"] by auto
  have i: "i < length data" "i < length data'"
    using Suc.prems len by simp_all
  have "data' ! i = (take (Suc i) data') ! i"
    by simp
  also have "\<dots> = ?x"
    using i by (simp add: pre)
  finally have at: "data' ! i = ?x" .
  have "take i data' = take i (take (Suc i) data')"
    by (simp add: min_def)
  also have "\<dots> = take i data"
    by (simp add: pre min_def)
  finally have pre': "take i data' = take i data" .
  have "take (Suc n) (drop i data') = data' ! i # take n (drop (Suc i) data')"
    using i by (simp add: Cons_nth_drop_Suc [symmetric])
  then have ran': "list_all in_int16 (take (Suc n) (drop i data'))"
    using ran x at by simp
  show ?case
    using Suc.prems(2) conv r v' len ran' pre' post by simp
qed

lemma saw_loop_exact:
  assumes "rounding fl"
  shows "fl v = v \<Longrightarrow> saw_loop fl dl vol d i n v data = Inr (data', v') \<Longrightarrow> fl v' = v'"
proof (induction n arbitrary: i v data)
  case 0
  then show ?case by simp
next
  case (Suc n)
  from Suc.prems(2) obtain x where
    "saw_loop fl dl vol d (Suc i) n (wrap_phase fl dl (fl (v + d))) (data[i := x]) = Inr (data', v')"
    by (auto split: sum.splits if_splits)
  moreover have "fl (wrap_phase fl dl (fl (v + d))) = wrap_phase fl dl (fl (v + d))"
    using assms by (rule wrap_phase_exact)
  ultimately show ?case
    using Suc.IH by blast
qed

section \<open>Properties of the filter\<close>

lemma clamp_sample_range:
  "in_sample_range (clamp v (real_of_int SHRT_MIN) (real_of_int SHRT_MAX))"
  by (simp add: clamp_def in_sample_range_def SHRT_MIN_def SHRT_MAX_def)

lemma lowpass_inner_in_range:
  assumes "list_all in_sample_range vs" "j < length vs" "i + n \<le> length data"
  shows "\<exists>vs' data'. lowpass_inner c j i n vs data = Inr (vs', data') \<and>
           list_all in_sample_range vs' \<and> length vs' = length vs \<and>
           length data' = length data \<and>
           list_all in_int16 (take n (drop i data')) \<and>
           take i data' = take i data \<and> drop (i + n) data' = drop (i + n) data"
  using assms
proof (induction n arbitrary: i vs data)
  case 0
  then show ?case by simp
next
  case (Suc n)
  let ?v = "clamp (real_of_int (data ! i) * c + vs ! j * (1 - c))
              (real_of_int SHRT_MIN) (real_of_int SHRT_MAX)"
  let ?x = "trunc ?v"
  have v: "in_sample_range ?v"
    by (rule clamp_sample_range)
  then have conv: "to_int16 ?v = Inr ?x"
    by (simp add: in_sample_range_def to_int16_in_range)
  have x: "in_int16 ?x"
    using conv by (rule to_int16_result)
  have "list_all in_sample_range (vs[j := ?v])"
    using Suc.prems(1) v by (auto simp: list_all_iff dest: set_update_subset_insert [THEN subsetD])
  moreover have "j < length (vs[j := ?v])" "Suc i + n \<le> length (data[i := ?x])"
    using Suc.prems by simp_all
  ultimately obtain vs' data' where
    r: "lowpass_inner c j (Suc i) n (vs[j := ?v]) (data[i := ?x]) = Inr (vs', data')"
    and vs': "list_all in_sample_range vs'" "length vs' = length vs"
    and len: "length data' = length data"
    and ran: "list_all in_int16 (take n (drop (Suc i) data'))"
    and pre: "take (Suc i) data' = take (Suc i) (data[i := ?x])"
    and post: "drop (Suc i + n) data' = drop (Suc i + n) (data[i := ?x])"
    using Suc.IH [of "vs[j := ?v]" "Suc i" "data[i := ?x]"] by auto
  have i: "i < length data" "i < length data'"
    using Suc.prems len by simp_all
  have "data' ! i = (take (Suc i) data') ! i"
    by simp
  also have "\<dots> = ?x"
    using i by (simp add: pre)
  finally have at: "data' ! i = ?x" .
  have "take i data' = take i (take (Suc i) data')"
    by (simp add: min_def)
  also have "\<dots> = take i data"
    by (simp add: pre min_def)
  finally have pre': "take i data' = take i data" .
  have "take (Suc n) (drop i data') = data' ! i # take n (drop (Suc i) data')"
    using i by (simp add: Cons_nth_drop_Suc [symmetric])
  then have ran': "list_all in_int16 (take (Suc n) (drop i data'))"
    using ran x at by simp
  have "lowpass_inner c j i (Suc n) vs data = Inr (vs', data')"
    using Suc.prems(2,3) conv r by (simp add: Let_def)
  then show ?case
    using vs' len ran' pre' post by simp
qed

lemma lowpass_outer_in_range:
  assumes "list_all in_sample_range vs" "j + m \<le> length vs" "count \<le> length data"
    "list_all in_int16 (take count data) \<or> 0 < m"
  shows "\<exists>vs' data'. lowpass_outer c j m count vs data = Inr (vs', data') \<and>
           list_all in_sample_range vs' \<and> length vs' = length vs \<and>
           length data' = length data \<and>
           list_all in_int16 (take count data') \<and>
           drop count data' = drop count data"
  using assms
proof (induction m arbitrary: j vs data)
  case 0
  then show ?case by simp
next
  case (Suc m)
  obtain vs1 data1 where
    r1: "lowpass_inner c j 0 count vs data = Inr (vs1, data1)"
    and vs1: "list_all in_sample_range vs1" "length vs1 = length vs"
    and d1: "length data1 = length data" "list_all in_int16 (take count data1)"
      "drop count data1 = drop count data"
    using lowpass_inner_in_range [of vs j 0 count data c] Suc.prems by auto
  obtain vs' data' where
    r: "lowpass_outer c (Suc j) m count vs1 data1 = Inr (vs', data')"
    and vs': "list_all in_sample_range vs'" "length vs' = length vs1"
    and d': "length data' = length data1" "list_all in_int16 (take count data')"
      "drop count data' = drop count data1"
    using Suc.IH [of vs1 "Suc j" data1] vs1 d1 Suc.prems(2,3) by auto
  show ?case
    using r1 r vs' vs1 d' d1 by simp
qed

section \<open>Claims about the oscillator\<close>

text \<open>A \<open>tick\<close> that returns had its \<open>count\<close> samples inside the array.\<close>

lemma saw_loop_Inr_bound:
  "saw_loop fl dl vol d i n v data = Inr r \<Longrightarrow> n = 0 \<or> i + n \<le> length data"
proof (induction n arbitrary: i v data)
  case 0
  then show ?case by simp
next
  case (Suc n)
  from Suc.prems have i: "i < length data"
    by (auto split: if_splits)
  then obtain x where
    "saw_loop fl dl vol d (Suc i) n (wrap_phase fl dl (fl (v + d))) (data[i := x]) = Inr r"
    using Suc.prems by (auto split: sum.splits)
  then have "n = 0 \<or> Suc i + n \<le> length (data[i := x])"
    by (rule Suc.IH)
  then show ?case
    using i by auto
qed

lemma SawTooth_tick_Inr_bound:
  assumes "SawTooth_tick fl dl s note data count = Inr (data', s')"
  shows "count \<le> length data"
proof -
  obtain vol d v r where "saw_loop fl dl vol d 0 count v data = Inr r"
    using assms by (auto simp: SawTooth_tick_def Let_def split: sum.splits if_splits)
  then show ?thesis
    using saw_loop_Inr_bound [of fl dl vol d 0 count v data r] by auto
qed

text \<open>
  One \<open>tick\<close> from a state with phase and volume in \<open>[-1, 1]\<close>: no conversion
  overflows, and the state it leaves has phase and volume in \<open>[-1, 1]\<close> again.
\<close>

lemma SawTooth_tick_effect:
  assumes fl: "rounding fl" and dl: "rounding dl"
    and "\<bar>last_v s\<bar> \<le> 1" and "\<bar>volume s\<bar> \<le> 1" and "count \<le> length data"
  shows "\<exists>data' s'. SawTooth_tick fl dl s note data count = Inr (data', s') \<and>
           list_all in_int16 (take count data') \<and> drop count data' = drop count data \<and>
           length data' = length data \<and> \<bar>last_v s'\<bar> \<le> 1 \<and> volume s' = volume s \<and>
           tuning s' = (if note = 0 then tuning s
                        else clamp (fl (tuning s * tuning_v s)) (fl 0.1) 1000)"
proof (cases "note = 0")
  case True
  show ?thesis
    using saw_loop_in_range [OF fl dl, of "last_v s" "volume s" 0 0 count data] assms True
    by (auto simp: SawTooth_tick_def)
next
  case False
  let ?t = "clamp (fl (tuning s * tuning_v s)) (fl 0.1) 1000"
  let ?d = "fl (dl (2 / fl (real samples_per_sec / clamp (fl (?t * note)) 10 10000)))"
  let ?v = "wrap_phase fl dl (fl (last_v s + ?d))"
  have d: "0 \<le> ?d" "?d \<le> 2"
    using saw_delta_range [OF fl dl, of "fl (?t * note)"] by simp_all
  have "\<bar>?v\<bar> \<le> 1"
    using fl dl assms(3) d by (rule wrap_phase_range)
  then show ?thesis
    using saw_loop_in_range [OF fl dl, of ?v "volume s" ?d 0 count data] assms(4,5) d False
    by (auto simp: SawTooth_tick_def Let_def)
qed

lemma SawTooth_tick_exact:
  assumes "rounding fl" and "fl (last_v s) = last_v s"
    and "SawTooth_tick fl dl s note data count = Inr (data', s')"
  shows "fl (last_v s') = last_v s'"
proof -
  obtain d v v' where l: "saw_loop fl dl (volume s) d 0 count v data = Inr (data', v')"
    and v: "fl v = v" and s': "last_v s' = v'"
    using assms
    by (auto simp: SawTooth_tick_def Let_def wrap_phase_exact split: sum.splits if_splits)
  show ?thesis
    using saw_loop_exact [OF assms(1) v l] s' by simp
qed

text \<open>
  Every state the program reaches has its phase in \<open>[-1, 1]\<close>, a phase that is a
  \<^verbatim>\<open>float\<close> value, and the volume 0.25 it was constructed with.
\<close>

lemma SawTooth_reachable_range:
  assumes "rounding fl" and "rounding dl"
  shows "SawTooth_reachable fl dl s \<Longrightarrow>
    \<bar>last_v s\<bar> \<le> 1 \<and> fl (last_v s) = last_v s \<and> volume s = 1 / 4"
proof (induction rule: SawTooth_reachable.induct)
  case initial
  show ?case
    using rounding_int [OF assms(1), of 0] by (simp add: new_sawtooth_def)
next
  case (control s t)
  then show ?case by simp
next
  case (ticked s n data count data' s')
  have c: "count \<le> length data"
    using ticked.hyps(2) by (rule SawTooth_tick_Inr_bound)
  have "\<bar>last_v s'\<bar> \<le> 1 \<and> volume s' = 1 / 4"
    using SawTooth_tick_effect [OF assms, of s count data n] ticked c by auto
  moreover have "fl (last_v s') = last_v s'"
    using SawTooth_tick_exact [OF assms(1) _ ticked.hyps(2)] ticked.IH by simp
  ultimately show ?case
    by simp
qed



text \<open>
  Claim C8: for every tuning target, every note (those of the pattern among them) and
  every state with the phase in \<open>[-1, 1]\<close> (and a volume in \<open>[-1, 1]\<close>; the program's
  is 0.25), \<open>tick\<close> converts every sample without overflow, so every sample stored is
  within the range of \<open>int16_t\<close>; the rest of the array is untouched and the phase stays
  in \<open>[-1, 1]\<close>. This holds whatever the rounding of the \<^verbatim>\<open>float\<close> and \<^verbatim>\<open>double\<close>
  operations, exact arithmetic included.
\<close>

theorem SawTooth_tick_bounds:
  assumes "rounding fl" and "rounding dl"
    and "\<bar>last_v s\<bar> \<le> 1" and "\<bar>volume s\<bar> \<le> 1" and "count \<le> length data"
  shows "\<exists>data' s'. SawTooth_tick fl dl s note data count = Inr (data', s') \<and>
           list_all in_int16 (take count data') \<and> drop count data' = drop count data \<and>
           length data' = length data \<and> \<bar>last_v s'\<bar> \<le> 1 \<and> volume s' = volume s"
  using SawTooth_tick_effect [OF assms, of "note"] by blast

text \<open>The first two samples of the note 440 from the initial state: 163 and 326.\<close>

theorem SawTooth_tick_bounds_witness:
  "rounding (\<lambda>x. x) \<and>
   \<bar>last_v new_sawtooth\<bar> \<le> 1 \<and> \<bar>volume new_sawtooth\<bar> \<le> 1 \<and>
   (2::nat) \<le> length [0, 0, 0 :: int] \<and>
   SawTooth_tick (\<lambda>x. x) (\<lambda>x. x) new_sawtooth 440 [0, 0, 0] 2 =
     Inr ([163, 326, 0], new_sawtooth\<lparr>last_v := 44 / 735\<rparr>) \<and>
   (\<exists>data' s'. SawTooth_tick (\<lambda>x. x) (\<lambda>x. x) new_sawtooth 440 [0, 0, 0] 2 = Inr (data', s') \<and>
      list_all in_int16 (take 2 data') \<and> drop 2 data' = drop 2 [0, 0, 0] \<and>
      length data' = length [0, 0, 0 :: int] \<and> \<bar>last_v s'\<bar> \<le> 1 \<and>
      volume s' = volume new_sawtooth)"
proof -
  have "SawTooth_tick (\<lambda>x. x) (\<lambda>x. x) new_sawtooth 440 [0, 0, 0] 2 =
      Inr ([163, 326, 0], new_sawtooth\<lparr>last_v := 44 / 735\<rparr>)"
    by (simp add: SawTooth_tick_def new_sawtooth_def clamp_def numeral_2_eq_2 to_int16_def
        trunc_def SHRT_MIN_def SHRT_MAX_def Let_def samples_per_sec_def wrap_phase_def)
  moreover have "\<bar>last_v new_sawtooth\<bar> \<le> 1" "\<bar>volume new_sawtooth\<bar> \<le> 1"
    by (simp_all add: new_sawtooth_def)
  ultimately show ?thesis
    using SawTooth_tick_bounds [OF rounding_id rounding_id, of new_sawtooth 2 "[0, 0, 0]" 440]
      rounding_id
    by simp
qed

text \<open>
  Claim C10: in every state the oscillator can be in, \<open>tick\<close> with note 0 leaves the
  smoothed tuning unchanged; the smoothing step \<^verbatim>\<open>tuning = std::clamp(tuning * tuning_v,
  0.1f, 1000.0f)\<close> is taken exactly on the blocks with a note other than 0.
\<close>

theorem SawTooth_tick_tuning:
  assumes "rounding fl" and "rounding dl" and "SawTooth_reachable fl dl s"
    and "count \<le> length data"
  shows "\<exists>data' s'. SawTooth_tick fl dl s note data count = Inr (data', s') \<and>
           tuning s' = (if note = 0 then tuning s
                        else clamp (fl (tuning s * tuning_v s)) (fl 0.1) 1000)"
proof -
  have "\<bar>last_v s\<bar> \<le> 1" "\<bar>volume s\<bar> \<le> 1"
    using SawTooth_reachable_range [OF assms(1,2,3)] by simp_all
  then show ?thesis
    using SawTooth_tick_effect [OF assms(1,2), of s count data "note"] assms(4) by blast
qed

text \<open>
  With the tuning control at 1.01 and a smoothed tuning of 1: a silent block keeps 1, a
  block of the note 440 moves it to 1.01.
\<close>

theorem SawTooth_tick_tuning_witness:
  "rounding (\<lambda>x. x) \<and>
   SawTooth_reachable (\<lambda>x. x) (\<lambda>x. x) (new_sawtooth\<lparr>tuning_v := 1.01\<rparr>) \<and>
   (1::nat) \<le> length [0 :: int] \<and>
   (\<exists>data' s'. SawTooth_tick (\<lambda>x. x) (\<lambda>x. x) (new_sawtooth\<lparr>tuning_v := 1.01\<rparr>) 0 [0] 1 =
        Inr (data', s') \<and> tuning s' = 1) \<and>
   (\<exists>data' s'. SawTooth_tick (\<lambda>x. x) (\<lambda>x. x) (new_sawtooth\<lparr>tuning_v := 1.01\<rparr>) 440 [0] 1 =
        Inr (data', s') \<and> tuning s' = 1.01)"
proof -
  have r: "SawTooth_reachable (\<lambda>x. x) (\<lambda>x. x) (new_sawtooth\<lparr>tuning_v := 1.01\<rparr>)"
    using SawTooth_reachable.initial by (rule SawTooth_reachable.control)
  show ?thesis
    using SawTooth_tick_tuning [OF rounding_id rounding_id r, of 1 "[0]" 0]
      SawTooth_tick_tuning [OF rounding_id rounding_id r, of 1 "[0]" 440] r rounding_id
    by (simp add: new_sawtooth_def clamp_def)
qed

section \<open>Claims about the filter\<close>

text \<open>
  Claim C7: for every cutoff target and every input block, from a state whose four
  accumulators are within the range of \<open>int16_t\<close>, \<open>tick\<close> converts every sample without
  overflow, so the \<open>count\<close> samples it stores are within the range of \<open>int16_t\<close>; the
  four accumulators are within that range afterwards, and the smoothed coefficient is
  in \<open>[0, 1]\<close>.
\<close>

theorem LowPass_tick_bounds:
  assumes "length (value_a s) = 4" and "list_all in_sample_range (value_a s)"
    and "count \<le> length data"
  shows "\<exists>data' s'. LowPass_tick s data count = Inr (data', s') \<and>
           list_all in_int16 (take count data') \<and> drop count data' = drop count data \<and>
           length data' = length data \<and>
           length (value_a s') = 4 \<and> list_all in_sample_range (value_a s') \<and>
           0 \<le> rc s' \<and> rc s' \<le> 1"
proof -
  let ?c = "clamp (rc s * rc_v s) 0 1"
  obtain vs data' where
    "lowpass_outer ?c 0 4 count (value_a s) data = Inr (vs, data')"
    "list_all in_sample_range vs" "length vs = length (value_a s)"
    "length data' = length data" "list_all in_int16 (take count data')"
    "drop count data' = drop count data"
    using lowpass_outer_in_range [of "value_a s" 0 4 count data ?c] assms by auto
  moreover have "0 \<le> ?c \<and> ?c \<le> 1"
    by (simp add: clamp_def)
  ultimately show ?thesis
    using assms(1) by (simp add: LowPass_tick_def)
qed

text \<open>Two samples through the initial filter (coefficient 1/2); the third is not touched.\<close>

theorem LowPass_tick_bounds_witness:
  "length (value_a new_lowpass) = 4 \<and> list_all in_sample_range (value_a new_lowpass) \<and>
   (2::nat) \<le> length [1000, - 2000, 9 :: int] \<and>
   LowPass_tick new_lowpass [1000, - 2000, 9] 2 =
     Inr ([62, 0, 9], new_lowpass\<lparr>value_a := [- 750, - 250, - (125 / 2), 1 / 4]\<rparr>) \<and>
   (\<exists>data' s'. LowPass_tick new_lowpass [1000, - 2000, 9] 2 = Inr (data', s') \<and>
      list_all in_int16 (take 2 data') \<and> drop 2 data' = drop 2 [1000, - 2000, 9] \<and>
      length data' = length [1000, - 2000, 9 :: int] \<and>
      length (value_a s') = 4 \<and> list_all in_sample_range (value_a s') \<and>
      0 \<le> rc s' \<and> rc s' \<le> 1)"
proof -
  have "LowPass_tick new_lowpass [1000, - 2000, 9] 2 =
      Inr ([62, 0, 9], new_lowpass\<lparr>value_a := [- 750, - 250, - (125 / 2), 1 / 4]\<rparr>)"
    by (simp add: LowPass_tick_def new_lowpass_def clamp_def eval_nat_numeral to_int16_def
        trunc_def SHRT_MIN_def SHRT_MAX_def Let_def)
  moreover have "length (value_a new_lowpass) = 4"
    "list_all in_sample_range (value_a new_lowpass)"
    by (simp_all add: new_lowpass_def in_sample_range_def SHRT_MIN_def SHRT_MAX_def)
  ultimately show ?thesis
    using LowPass_tick_bounds [of new_lowpass 2 "[1000, - 2000, 9]"] by simp
qed

end
